theory Spec2Isabelle
  imports Main "HOL-Library.Word" "HOL-Library.Signed_Division" "HOL-Library.Monad_Syntax"
begin

section \<open>The ring buffer of ringbuffer.go\<close>

text \<open>
  A shallow embedding of \<^verbatim>\<open>ringbuffer.go\<close>. Every method of the Go type runs under the
  buffer's mutex from its first statement to its return, so each method is one atomic
  transition of the state; the mutex itself is not part of the model.

  Go's \<^verbatim>\<open>int\<close> is modelled by \<^typ>\<open>int\<close>: the cursors and counts of a buffer that
  \<^verbatim>\<open>make\<close> could allocate stay far below \<open>2^63\<close>, so no operation of the code wraps.

  A run-time panic (a slice expression or an index out of range, a remainder by zero,
  \<^verbatim>\<open>make\<close> with a negative length) is the result \<open>None\<close>; a Go \<^verbatim>\<open>error\<close> value is an
  \<open>error option\<close>, with \<open>None\<close> for \<^verbatim>\<open>nil\<close>.
\<close>

subsection \<open>Go slices, as far as the code uses them\<close>

type_synonym byte = "8 word"

text \<open>\<^verbatim>\<open>make([]byte, n)\<close>: \<open>n\<close> zero bytes; panics when \<open>n\<close> is negative.\<close>

definition makeslice :: "int \<Rightarrow> byte list option" where
  "makeslice n = (if n < 0 then None else Some (replicate (nat n) 0))"

text \<open>
  \<^verbatim>\<open>s[lo:hi]\<close> for a slice whose capacity is its length (every slice the code cuts this
  way is such a one, or is cut below its length): panics unless \<open>0 \<le> lo \<le> hi \<le> len(s)\<close>.
\<close>

definition slice :: "'a list \<Rightarrow> int \<Rightarrow> int \<Rightarrow> 'a list option" where
  "slice s lo hi =
     (if 0 \<le> lo \<and> lo \<le> hi \<and> hi \<le> int (length s)
      then Some (take (nat hi - nat lo) (drop (nat lo) s)) else None)"

text \<open>
  \<^verbatim>\<open>copy(dst[lo:], src)\<close>: the slice expression panics unless \<open>0 \<le> lo \<le> len(dst)\<close>;
  \<^verbatim>\<open>copy\<close> then moves \<open>min(len(dst) - lo, len(src))\<close> elements. The destination slice
  shares its array with \<open>dst\<close>, so the result is \<open>dst\<close> after the copy.
\<close>

definition copy_at :: "'a list \<Rightarrow> int \<Rightarrow> 'a list \<Rightarrow> 'a list option" where
  "copy_at dst lo src =
     (if 0 \<le> lo \<and> lo \<le> int (length dst)
      then (let k = min (length dst - nat lo) (length src)
            in Some (take (nat lo) dst @ take k src @ drop (nat lo + k) dst))
      else None)"

text \<open>\<^verbatim>\<open>s[i]\<close> and \<^verbatim>\<open>s[i] = c\<close>: panic unless \<open>0 \<le> i < len(s)\<close>.\<close>

definition index :: "'a list \<Rightarrow> int \<Rightarrow> 'a option" where
  "index s i = (if 0 \<le> i \<and> i < int (length s) then Some (s ! nat i) else None)"

definition store :: "'a list \<Rightarrow> int \<Rightarrow> 'a \<Rightarrow> 'a list option" where
  "store s i c = (if 0 \<le> i \<and> i < int (length s) then Some (s[nat i := c]) else None)"

text \<open>Go's \<^verbatim>\<open>a % m\<close>: the truncated remainder; panics when \<open>m\<close> is zero.\<close>

definition go_mod :: "int \<Rightarrow> int \<Rightarrow> int option" where
  "go_mod a m = (if m = 0 then None else Some (a smod m))"

subsection \<open>The buffer\<close>

datatype error = ErrFull | ErrEmpty

text \<open>
  The struct \<^verbatim>\<open>RingBuffer\<close> without its mutex. The field \<^verbatim>\<open>size\<close> is \<open>size_rb\<close> here
  (\<open>size\<close> is a constant of HOL).
\<close>

record RingBuffer =
  buf :: "byte list"
  size_rb :: int
  r :: int
  w :: int
  isFull :: bool

definition New :: "int \<Rightarrow> RingBuffer option" where
  "New n = do {
     bf \<leftarrow> makeslice n;
     Some \<lparr>buf = bf, size_rb = n, r = 0, w = 0, isFull = False\<rparr>
   }"

text \<open>
  \<open>Read b p\<close> is the buffer after the call, the destination \<open>p\<close> after the call, and the
  two results \<open>n\<close> and \<open>err\<close>.
\<close>

definition Read :: "RingBuffer \<Rightarrow> byte list \<Rightarrow> (RingBuffer \<times> byte list \<times> int \<times> error option) option" where
  "Read b p =
     (if length p = 0 then Some (b, p, 0, None)
      else if w b = r b \<and> \<not> isFull b then Some (b, p, 0, Some ErrEmpty)
      else if w b > r b then
        (let n = w b - r b;
             n = (if n > int (length p) then int (length p) else n)
         in do {
           s \<leftarrow> slice (buf b) (r b) (r b + n);
           p' \<leftarrow> copy_at p 0 s;
           m \<leftarrow> go_mod (r b + n) (size_rb b);
           Some (b\<lparr>r := m\<rparr>, p', n, None)
         })
      else
        (let n = size_rb b - r b + w b;
             n = (if n > int (length p) then int (length p) else n)
         in do {
           p' \<leftarrow> (if r b + n \<le> size_rb b then do {
                    s \<leftarrow> slice (buf b) (r b) (r b + n);
                    copy_at p 0 s
                  } else do {
                    let c1 = size_rb b - r b;
                    s1 \<leftarrow> slice (buf b) (r b) (size_rb b);
                    p1 \<leftarrow> copy_at p 0 s1;
                    let c2 = n - c1;
                    s2 \<leftarrow> slice (buf b) 0 c2;
                    copy_at p1 c1 s2
                  });
           m \<leftarrow> go_mod (r b + n) (size_rb b);
           Some (b\<lparr>r := m, isFull := False\<rparr>, p', n, None)
         }))"

definition ReadByte :: "RingBuffer \<Rightarrow> (RingBuffer \<times> byte \<times> error option) option" where
  "ReadByte b =
     (if w b = r b \<and> \<not> isFull b then Some (b, 0, Some ErrEmpty)
      else do {
        x \<leftarrow> index (buf b) (r b);
        let b = b\<lparr>r := r b + 1\<rparr>;
        let b = (if r b = size_rb b then b\<lparr>r := 0\<rparr> else b);
        Some (b\<lparr>isFull := False\<rparr>, x, None)
      })"

text \<open>\<open>Write b p\<close> is the buffer after the call and the two results \<open>n\<close> and \<open>err\<close>.\<close>

definition Write :: "RingBuffer \<Rightarrow> byte list \<Rightarrow> (RingBuffer \<times> int \<times> error option) option" where
  "Write b p =
     (if length p = 0 then Some (b, 0, None)
      else if isFull b then Some (b, 0, Some ErrFull)
      else
        (let avail = (if w b \<ge> r b then size_rb b - w b + r b else r b - w b);
             err = (if int (length p) > avail then Some ErrFull else None)
         in do {
           p \<leftarrow> (if int (length p) > avail then slice p 0 avail else Some p);
           let n = int (length p);
           b \<leftarrow> (if w b \<ge> r b then
                   (let c1 = size_rb b - w b
                    in if c1 \<ge> n then do {
                         bf \<leftarrow> copy_at (buf b) (w b) p;
                         Some (b\<lparr>buf := bf, w := w b + n\<rparr>)
                       } else do {
                         p1 \<leftarrow> slice p 0 c1;
                         bf \<leftarrow> copy_at (buf b) (w b) p1;
                         let c2 = n - c1;
                         p2 \<leftarrow> slice p c1 n;
                         bf \<leftarrow> copy_at bf 0 p2;
                         Some (b\<lparr>buf := bf, w := c2\<rparr>)
                       })
                 else do {
                   bf \<leftarrow> copy_at (buf b) (w b) p;
                   Some (b\<lparr>buf := bf, w := w b + n\<rparr>)
                 });
           let b = (if w b = size_rb b then b\<lparr>w := 0\<rparr> else b);
           let b = (if w b = r b then b\<lparr>isFull := True\<rparr> else b);
           Some (b, n, err)
         }))"

definition WriteByte :: "RingBuffer \<Rightarrow> byte \<Rightarrow> (RingBuffer \<times> error option) option" where
  "WriteByte b c =
     (if w b = r b \<and> isFull b then Some (b, Some ErrFull)
      else do {
        bf \<leftarrow> store (buf b) (w b) c;
        let b = b\<lparr>buf := bf, w := w b + 1\<rparr>;
        let b = (if w b = size_rb b then b\<lparr>w := 0\<rparr> else b);
        let b = (if w b = r b then b\<lparr>isFull := True\<rparr> else b);
        Some (b, None)
      })"

definition Length :: "RingBuffer \<Rightarrow> int" where
  "Length b =
     (if w b = r b then (if isFull b then size_rb b else 0)
      else if w b > r b then w b - r b
      else size_rb b - r b + w b)"

definition Capacity :: "RingBuffer \<Rightarrow> int" where
  "Capacity b = size_rb b"

definition Free :: "RingBuffer \<Rightarrow> int" where
  "Free b =
     (if w b = r b then (if isFull b then 0 else size_rb b)
      else if w b < r b then r b - w b
      else size_rb b - w b + r b)"

text \<open>
  \<open>Bytes\<close> assigns to no field, so its only result is the slice it returns. The \<^verbatim>\<open>nil\<close>
  it returns for an empty buffer is the empty sequence.
\<close>

definition Bytes :: "RingBuffer \<Rightarrow> byte list option" where
  "Bytes b =
     (if w b = r b then
        (if isFull b then do {
           bf \<leftarrow> makeslice (size_rb b);
           s1 \<leftarrow> slice (buf b) (r b) (int (length (buf b)));
           bf \<leftarrow> copy_at bf 0 s1;
           s2 \<leftarrow> slice (buf b) 0 (w b);
           copy_at bf (size_rb b - r b) s2
         } else Some [])
      else if w b > r b then do {
        bf \<leftarrow> makeslice (w b - r b);
        s \<leftarrow> slice (buf b) (r b) (w b);
        copy_at bf 0 s
      } else
        (let n = size_rb b - r b + w b
         in do {
           bf \<leftarrow> makeslice n;
           if r b + n < size_rb b then do {
             s \<leftarrow> slice (buf b) (r b) (r b + n);
             copy_at bf 0 s
           } else do {
             let c1 = size_rb b - r b;
             s1 \<leftarrow> slice (buf b) (r b) (size_rb b);
             bf \<leftarrow> copy_at bf 0 s1;
             let c2 = n - c1;
             s2 \<leftarrow> slice (buf b) 0 c2;
             copy_at bf c1 s2
           }
         }))"

definition IsFull :: "RingBuffer \<Rightarrow> bool" where
  "IsFull b = isFull b"

definition IsEmpty :: "RingBuffer \<Rightarrow> bool" where
  "IsEmpty b = (\<not> isFull b \<and> w b = r b)"

definition Reset :: "RingBuffer \<Rightarrow> RingBuffer" where
  "Reset b = b\<lparr>r := 0, w := 0, isFull := False\<rparr>"

subsection \<open>WriteString\<close>

text \<open>
  \<^verbatim>\<open>WriteString\<close> reads the string's header as an array of two machine words (the
  address of its bytes and its length), builds the three words of a slice header from
  them (address, length, capacity) and reads that as a \<^verbatim>\<open>[]byte\<close>. A string value is
  modelled as its two header words over a memory of bytes, which the call only reads;
  the arrays \<^verbatim>\<open>[2]uintptr\<close> and \<^verbatim>\<open>[3]uintptr\<close> are a pair and a triple.
\<close>

type_synonym uintptr = "64 word"
type_synonym memory = "uintptr \<Rightarrow> byte"
type_synonym string_header = "uintptr \<times> uintptr"
type_synonym slice_header = "uintptr \<times> uintptr \<times> uintptr"

text \<open>The bytes of the string with header \<open>s\<close>, and of the slice with header \<open>h\<close>.\<close>

definition string_bytes :: "memory \<Rightarrow> string_header \<Rightarrow> byte list" where
  "string_bytes mem s = (case s of (data, len) \<Rightarrow> map (\<lambda>i. mem (data + of_nat i)) [0..<unat len])"

definition slice_bytes :: "memory \<Rightarrow> slice_header \<Rightarrow> byte list" where
  "slice_bytes mem h =
     (case h of (data, len, cap) \<Rightarrow> map (\<lambda>i. mem (data + of_nat i)) [0..<unat len])"

definition WriteString :: "memory \<Rightarrow> RingBuffer \<Rightarrow> string_header \<Rightarrow> (RingBuffer \<times> int \<times> error option) option" where
  "WriteString mem b s =
     (let x = s;
          h = (fst x, snd x, snd x)
      in Write b (slice_bytes mem h))"

subsection \<open>Sequences of calls\<close>

text \<open>
  The calls that assign to the buffer, with their arguments. A sequence of calls stops
  at the first panic.
\<close>

datatype op =
    OpRead "byte list"
  | OpReadByte
  | OpWrite "byte list"
  | OpWriteByte byte
  | OpWriteString memory string_header
  | OpReset

fun step :: "RingBuffer \<Rightarrow> op \<Rightarrow> RingBuffer option" where
  "step b (OpRead p) = map_option fst (Read b p)"
| "step b OpReadByte = map_option fst (ReadByte b)"
| "step b (OpWrite p) = map_option fst (Write b p)"
| "step b (OpWriteByte c) = map_option fst (WriteByte b c)"
| "step b (OpWriteString mem s) = map_option fst (WriteString mem b s)"
| "step b OpReset = Some (Reset b)"

fun run :: "RingBuffer \<Rightarrow> op list \<Rightarrow> RingBuffer option" where
  "run b [] = Some b"
| "run b (x # xs) = (case step b x of None \<Rightarrow> None | Some b' \<Rightarrow> run b' xs)"

subsection \<open>The state invariant and the unread bytes\<close>

text \<open>
  The invariant of the data model, for a buffer of positive capacity: the storage has
  \<open>size\<close> bytes, both cursors index it, and the full flag is set only where the cursors
  coincide.
\<close>

definition rb_inv :: "RingBuffer \<Rightarrow> bool" where
  "rb_inv b \<longleftrightarrow>
     0 < size_rb b \<and> int (length (buf b)) = size_rb b \<and>
     0 \<le> r b \<and> r b < size_rb b \<and> 0 \<le> w b \<and> w b < size_rb b \<and>
     (isFull b \<longrightarrow> r b = w b)"

text \<open>The states of a buffer of capacity zero.\<close>

definition rb_zero :: "RingBuffer \<Rightarrow> bool" where
  "rb_zero b \<longleftrightarrow> size_rb b = 0 \<and> buf b = [] \<and> r b = 0 \<and> w b = 0"

text \<open>
  The states of a buffer that \<open>New\<close> returned: of positive capacity or of capacity zero.
  Every state that a sequence of calls reaches is one of them (\<open>reachable_state\<close> below).
\<close>

definition rb_state :: "RingBuffer \<Rightarrow> bool" where
  "rb_state b \<longleftrightarrow> rb_inv b \<or> rb_zero b"

text \<open>
  The unread bytes in logical order, oldest first: \<open>Length\<close> bytes of the storage from the
  read cursor on, each index taken modulo the capacity.
\<close>

definition unread :: "RingBuffer \<Rightarrow> byte list" where
  "unread b = map (\<lambda>i. buf b ! nat ((r b + int i) mod size_rb b)) [0..<nat (Length b)]"

text \<open>
  Position \<open>j\<close> of a storage of \<open>S\<close> bytes after the bytes \<open>p\<close> went in from position \<open>W\<close>
  on, past the end to the start.
\<close>

definition put_spec :: "nat \<Rightarrow> nat \<Rightarrow> byte list \<Rightarrow> byte list \<Rightarrow> nat \<Rightarrow> byte" where
  "put_spec S W p bf j =
     (if W \<le> j \<and> j < W + length p then p ! (j - W)
      else if j + S < W + length p then p ! (j + S - W) else bf ! j)"

text \<open>The part of \<open>Write\<close> after the payload is cut to the free space, as a function of its own.\<close>

definition Write_commit :: "RingBuffer \<Rightarrow> byte list \<Rightarrow> error option \<Rightarrow> (RingBuffer \<times> int \<times> error option) option" where
  "Write_commit b p err = do {
           let n = int (length p);
           b \<leftarrow> (if w b \<ge> r b then
                   (let c1 = size_rb b - w b
                    in if c1 \<ge> n then do {
                         bf \<leftarrow> copy_at (buf b) (w b) p;
                         Some (b\<lparr>buf := bf, w := w b + n\<rparr>)
                       } else do {
                         p1 \<leftarrow> slice p 0 c1;
                         bf \<leftarrow> copy_at (buf b) (w b) p1;
                         let c2 = n - c1;
                         p2 \<leftarrow> slice p c1 n;
                         bf \<leftarrow> copy_at bf 0 p2;
                         Some (b\<lparr>buf := bf, w := c2\<rparr>)
                       })
                 else do {
                   bf \<leftarrow> copy_at (buf b) (w b) p;
                   Some (b\<lparr>buf := bf, w := w b + n\<rparr>)
                 });
           let b = (if w b = size_rb b then b\<lparr>w := 0\<rparr> else b);
           let b = (if w b = r b then b\<lparr>isFull := True\<rparr> else b);
           Some (b, n, err)
         }"

section \<open>Slices and arithmetic\<close>

lemma slice_Some:
  "0 \<le> lo \<Longrightarrow> lo \<le> hi \<Longrightarrow> hi \<le> int (length s) \<Longrightarrow>
   slice s lo hi = Some (take (nat (hi - lo)) (drop (nat lo) s))"
  by (simp add: slice_def nat_diff_distrib)

lemma copy_at_Some:
  "0 \<le> lo \<Longrightarrow> nat lo + length src \<le> length dst \<Longrightarrow>
   copy_at dst lo src = Some (take (nat lo) dst @ src @ drop (nat lo + length src) dst)"
  by (auto simp add: copy_at_def Let_def min_def)

lemma smod_nonneg: "0 \<le> a \<Longrightarrow> 0 < m \<Longrightarrow> (a::int) smod m = a mod m"
  using smod_mod_positive by force

lemma mod_wrap: "0 \<le> a \<Longrightarrow> a < 2 * m \<Longrightarrow> (a::int) mod m = (if a < m then a else a - m)"
proof (cases "a < m")
  case True
  assume "0 \<le> a"
  with True show ?thesis by simp
next
  case False
  assume "a < 2 * m"
  with False have "0 \<le> a - m" "a - m < m" by simp_all
  then have "(a - m) mod m = a - m" by (rule mod_pos_pos_trivial)
  moreover have "(a - m) mod m = a mod m" by (rule minus_mod_self2)
  ultimately have "a mod m = a - m" by (simp only:)
  then show ?thesis using False by (simp only: if_False)
qed

lemma go_mod_wrap:
  "0 \<le> a \<Longrightarrow> 0 < m \<Longrightarrow> a < 2 * m \<Longrightarrow> go_mod a m = Some (if a < m then a else a - m)"
  by (simp add: go_mod_def smod_nonneg mod_wrap)

lemma rb_inv_nat:
  assumes "rb_inv b"
  obtains R W S where "r b = int R" "w b = int W" "size_rb b = int S" "length (buf b) = S"
    "R < S" "W < S" "isFull b \<longrightarrow> R = W"
proof -
  from assms have "r b = int (nat (r b))" "w b = int (nat (w b))" "size_rb b = int (length (buf b))"
    "nat (r b) < length (buf b)" "nat (w b) < length (buf b)" "isFull b \<longrightarrow> nat (r b) = nat (w b)"
    by (auto simp: rb_inv_def)
  then show thesis using that by blast
qed

lemma copy_at_nth:
  assumes "lo + length src \<le> length dst"
  obtains d where "copy_at dst (int lo) src = Some d" "length d = length dst"
    "\<And>j. j < length dst \<Longrightarrow>
       d ! j = (if lo \<le> j \<and> j < lo + length src then src ! (j - lo) else dst ! j)"
proof -
  let ?d = "take lo dst @ src @ drop (lo + length src) dst"
  have "copy_at dst (int lo) src = Some ?d"
    using assms by (simp add: copy_at_Some)
  moreover have "length ?d = length dst"
    using assms by simp
  moreover have "?d ! j = (if lo \<le> j \<and> j < lo + length src then src ! (j - lo) else dst ! j)"
    if "j < length dst" for j
    using assms that by (auto simp: nth_append)
  ultimately show thesis using that by blast
qed

section \<open>What Write and Read do to the storage and the cursors\<close>

lemma Write_unfold:
  "Write b p =
     (if length p = 0 then Some (b, 0, None)
      else if isFull b then Some (b, 0, Some ErrFull)
      else
        (let avail = (if w b \<ge> r b then size_rb b - w b + r b else r b - w b);
             err = (if int (length p) > avail then Some ErrFull else None)
         in do {
           p \<leftarrow> (if int (length p) > avail then slice p 0 avail else Some p);
           Write_commit b p err
         }))"
  unfolding Write_def Write_commit_def ..

lemma Write_fits:
  assumes "r b = int R" "w b = int W" "size_rb b = int S" "length (buf b) = S"
    "R < S" "W < S" "\<not> isFull b" "p \<noteq> []"
    and "length p \<le> (if R \<le> W then S - W + R else R - W)"
  shows "\<exists>b'. Write_commit b p err = Some (b', int (length p), err)
     \<and> size_rb b' = size_rb b \<and> r b' = r b
     \<and> w b' = int (if W + length p < S then W + length p else W + length p - S)
     \<and> isFull b' = ((if W + length p < S then W + length p else W + length p - S) = R)
     \<and> length (buf b') = S \<and> (\<forall>j<S. buf b' ! j = put_spec S W p (buf b) j)"
proof (cases "R \<le> W")
  case True
  show ?thesis
  proof (cases "length p \<le> S - W")
    case True
    then have "int (length p) \<le> int S - int W" "int (length p) \<le> int S - int W + int R" using assms by auto
    then show ?thesis using assms True \<open>R \<le> W\<close>
      by (auto simp add: Write_commit_def Let_def copy_at_Some nth_append put_spec_def)
  next
    case False
    then have i: "\<not> int (length p) \<le> int S - int W" "int (length p) \<le> int S - int W + int R"
      using assms \<open>R \<le> W\<close> by auto
    have s1: "slice p 0 (int S - int W) = Some (take (S - W) p)"
      using False assms by (simp add: slice_Some nat_diff_distrib)
    have s2: "slice p (int S - int W) (int (length p)) = Some (drop (S - W) p)"
      using False assms by (simp add: slice_Some nat_diff_distrib)
    have "W + length (take (S - W) p) \<le> length (buf b)"
      using False assms by simp
    from copy_at_nth[OF this] obtain bf1 where bf1: "copy_at (buf b) (int W) (take (S - W) p) = Some bf1"
      "length bf1 = length (buf b)"
      "\<And>j. j < length (buf b) \<Longrightarrow> bf1 ! j =
         (if W \<le> j \<and> j < W + length (take (S - W) p) then take (S - W) p ! (j - W) else buf b ! j)"
      by blast
    have "0 + length (drop (S - W) p) \<le> length bf1"
      using False assms bf1(2) \<open>R \<le> W\<close> by simp
    from copy_at_nth[OF this] obtain bf2 where bf2: "copy_at bf1 0 (drop (S - W) p) = Some bf2"
      "length bf2 = length bf1"
      "\<And>j. j < length bf1 \<Longrightarrow> bf2 ! j =
         (if 0 \<le> j \<and> j < 0 + length (drop (S - W) p) then drop (S - W) p ! (j - 0) else bf1 ! j)"
      by auto
    have nth: "bf2 ! j = put_spec S W p (buf b) j" if "j < S" for j
      using bf1(2) bf1(3)[of j] bf2(3)[of j] False assms \<open>R \<le> W\<close> that
      by (auto simp: put_spec_def add.commute)
    have w': "int (length p) - (int S - int W) = int (W + length p - S)" using False assms by auto
    show ?thesis using i s1 s2 bf1(1,2) bf2(1,2) nth assms False \<open>R \<le> W\<close>
      by (auto simp add: Write_commit_def Let_def w')
  qed
next
  case False
  then have "int (length p) \<le> int R - int W" using assms by auto
  then show ?thesis using assms False
      by (auto simp add: Write_commit_def Let_def copy_at_Some slice_Some nth_append put_spec_def)
qed

lemma Write_spec:
  assumes "r b = int R" "w b = int W" "size_rb b = int S" "length (buf b) = S"
    "R < S" "W < S" "\<not> isFull b" "p \<noteq> []"
    and F: "F = (if R \<le> W then S - W + R else R - W)" and n: "n = min (length p) F"
  shows "\<exists>b'. Write b p = Some (b', int n, if F < length p then Some ErrFull else None)
     \<and> size_rb b' = size_rb b \<and> r b' = r b
     \<and> w b' = int (if W + n < S then W + n else W + n - S)
     \<and> isFull b' = ((if W + n < S then W + n else W + n - S) = R)
     \<and> length (buf b') = S \<and> (\<forall>j<S. buf b' ! j = put_spec S W (take n p) (buf b) j)"
proof -
  have avail: "(if w b \<ge> r b then size_rb b - w b + r b else r b - w b) = int F"
    using assms by auto
  have "0 < F" using assms by auto
  then have ne: "take n p \<noteq> []" using \<open>p \<noteq> []\<close> n by auto
  have len: "length (take n p) = n" using n by simp
  have trunc: "(if int (length p) > int F then slice p 0 (int F) else Some p) = Some (take n p)"
    using n by (auto simp: slice_Some min_def)
  have W: "Write b p = Write_commit b (take n p) (if F < length p then Some ErrFull else None)"
    unfolding Write_unfold avail Let_def trunc using \<open>p \<noteq> []\<close> \<open>\<not> isFull b\<close> by simp
  have "length (take n p) \<le> (if R \<le> W then S - W + R else R - W)" using F n by simp
  from Write_fits[OF assms(1-7) ne this, of "if F < length p then Some ErrFull else None"]
  show ?thesis unfolding W len .
qed


lemma Read_spec:
  assumes "r b = int R" "w b = int W" "size_rb b = int S" "length (buf b) = S"
    "R < S" "W < S" "isFull b \<longrightarrow> R = W" "p \<noteq> []"
    and L: "L = (if isFull b then S else if R \<le> W then W - R else S - R + W)" "0 < L"
    and n: "n = min (length p) L"
  shows "\<exists>b' p'. Read b p = Some (b', p', int n, None)
     \<and> buf b' = buf b \<and> size_rb b' = size_rb b \<and> w b' = w b
     \<and> r b' = int (if R + n < S then R + n else R + n - S) \<and> \<not> isFull b'
     \<and> length p' = length p
     \<and> (\<forall>j<length p. p' ! j = (if j < n then buf b ! (if R + j < S then R + j else R + j - S) else p ! j))"
proof (cases "R < W")
  case True
  then have nf: "\<not> isFull b" "L = W - R" using assms by auto
  have n': "(if int W - int R > int (length p) then int (length p) else int W - int R) = int n"
    using n nf True by (auto simp: min_def)
  have sl: "slice (buf b) (int R) (int R + int n) = Some (take n (drop R (buf b)))"
    using True assms nf by (simp add: slice_Some)
  have "0 + length (take n (drop R (buf b))) \<le> length p" using n by simp
  from copy_at_nth[OF this] obtain p' where p': "copy_at p 0 (take n (drop R (buf b))) = Some p'"
      "length p' = length p"
      "\<And>j. j < length p \<Longrightarrow> p' ! j =
         (if 0 \<le> j \<and> j < 0 + length (take n (drop R (buf b))) then take n (drop R (buf b)) ! (j - 0) else p ! j)"
    by auto
  have len: "length (take n (drop R (buf b))) = n" using n nf True assms by simp
  have nth: "p' ! j = (if j < n then buf b ! (if R + j < S then R + j else R + j - S) else p ! j)"
    if "j < length p" for j
    using p'(3)[OF that] n nf True assms by (auto simp: len)
  have gm: "go_mod (int R + int n) (int S) = Some (int (R + n))"
    using n nf True assms by (simp add: go_mod_wrap)
  show ?thesis using True assms nf sl p'(1,2) nth gm
    by (auto simp: Read_def Let_def n')
next
  case False
  have "L = S - R + W \<and> W \<le> R"
    using L False \<open>R < S\<close> \<open>W < S\<close> \<open>isFull b \<longrightarrow> R = W\<close>
    by (cases "isFull b"; cases "R = W"; simp)
  then have LL: "L = S - R + W" "W \<le> R" by simp_all
  have "R = W \<longrightarrow> isFull b" using L by (cases "isFull b") auto
  then have d1: "\<not> (w b = r b \<and> \<not> isFull b)" using assms(1,2) by auto
  have d2: "\<not> r b < w b" using False assms(1,2) by simp
  have d0: "length p \<noteq> 0" using \<open>p \<noteq> []\<close> by simp
  have "n \<le> S" using n LL \<open>R < S\<close> \<open>W < S\<close> by simp
  have nb: "n \<le> length p" "n \<le> S - R + W" using n LL by simp_all
  have n': "(if size_rb b - r b + w b > int (length p) then int (length p) else size_rb b - r b + w b) = int n"
    using n LL assms(1-6) by (auto simp: min_def)
  have gm: "go_mod (r b + int n) (size_rb b) = Some (int (if R + n < S then R + n else R + n - S))"
    using \<open>n \<le> S\<close> \<open>R < S\<close> assms(1,3) by (auto simp: go_mod_wrap)
  show ?thesis
  proof (cases "R + n \<le> S")
    case True
    have sl: "slice (buf b) (r b) (r b + int n) = Some (take n (drop R (buf b)))"
      using True assms(1-6) by (simp add: slice_Some)
    have len: "length (take n (drop R (buf b))) = n" using True assms(1-6) by simp
    have "0 + length (take n (drop R (buf b))) \<le> length p" using n by simp
    from copy_at_nth[OF this] obtain p' where p': "copy_at p 0 (take n (drop R (buf b))) = Some p'"
      "length p' = length p"
      "\<And>j. j < length p \<Longrightarrow> p' ! j =
         (if 0 \<le> j \<and> j < 0 + length (take n (drop R (buf b))) then take n (drop R (buf b)) ! (j - 0) else p ! j)"
      by auto
    have nth: "p' ! j = (if j < n then buf b ! (if R + j < S then R + j else R + j - S) else p ! j)"
      if "j < length p" for j
      using p'(3)[OF that] n True LL assms(1-6) by (auto simp: len)
    have c: "r b + int n \<le> size_rb b" using True assms(1,3) by simp
    show ?thesis unfolding Read_def Let_def n'
      using d0 d1 d2 c sl p'(1,2) nth gm by simp
  next
    case wrap: False
    have s1: "slice (buf b) (r b) (size_rb b) = Some (drop R (buf b))"
      using assms(1-6) by (simp add: slice_Some)
    have "0 + length (drop R (buf b)) \<le> length p" using n wrap assms(1-6) LL by simp
    from copy_at_nth[OF this] obtain p1 where p1: "copy_at p 0 (drop R (buf b)) = Some p1"
      "length p1 = length p"
      "\<And>j. j < length p \<Longrightarrow> p1 ! j =
         (if 0 \<le> j \<and> j < 0 + length (drop R (buf b)) then drop R (buf b) ! (j - 0) else p ! j)"
      by auto
    have s2: "slice (buf b) 0 (int n - (size_rb b - r b)) = Some (take (R + n - S) (buf b))"
      using wrap assms(1-6) \<open>n \<le> S\<close> by (simp add: slice_Some nat_diff_distrib nat_add_distrib add.commute)
    have c1: "size_rb b - r b = int (S - R)" using assms(1-6) by simp
    have "(S - R) + length (take (R + n - S) (buf b)) \<le> length p1" using n wrap assms(1-6) p1(2) LL by simp
    from copy_at_nth[OF this] obtain p2 where p2: "copy_at p1 (int (S - R)) (take (R + n - S) (buf b)) = Some p2"
      "length p2 = length p1"
      "\<And>j. j < length p1 \<Longrightarrow> p2 ! j =
         (if (S - R) \<le> j \<and> j < (S - R) + length (take (R + n - S) (buf b)) then take (R + n - S) (buf b) ! (j - (S - R)) else p1 ! j)"
      by auto
    have nth: "p2 ! j = (if j < n then buf b ! (if R + j < S then R + j else R + j - S) else p ! j)"
      if "j < length p" for j
      using p1(3)[OF that] p2(3)[of j] that p1(2) nb wrap assms(4-6) LL(2) by (auto simp: add.commute)
    have c: "\<not> r b + int n \<le> size_rb b" using wrap assms(1,3) by simp
    have s2': "slice (buf b) 0 (int n - int (S - R)) = Some (take (R + n - S) (buf b))"
      using s2 c1 by simp
    show ?thesis unfolding Read_def Let_def n'
      using d0 d1 d2 c s1 s2' p1(1,2) p2(1,2) nth gm by (simp add: c1)
  qed
qed

section \<open>Write, Read and Bytes on the unread bytes\<close>

lemma Length_nat:
  assumes "r b = int R" "w b = int W" "size_rb b = int S" "isFull b \<longrightarrow> R = W" "R < S" "W < S"
  shows "Length b = int (if isFull b then S else if R \<le> W then W - R else S - R + W)"
  using assms by (auto simp: Length_def)

lemma Free_nat:
  assumes "r b = int R" "w b = int W" "size_rb b = int S" "isFull b \<longrightarrow> R = W" "R < S" "W < S"
  shows "Free b = int (if isFull b then 0 else if R \<le> W then S - W + R else R - W)"
  using assms by (auto simp: Free_def)

lemma unread_nat:
  assumes "r b = int R" "size_rb b = int S" "R < S" "Length b = int L" "L \<le> S"
  shows "length (unread b) = L"
    and "\<And>i. i < L \<Longrightarrow> unread b ! i = buf b ! (if R + i < S then R + i else R + i - S)"
proof -
  show "length (unread b) = L" using assms by (simp add: unread_def)
  fix i assume "i < L"
  have "(int R + int i) mod int S = int (if R + i < S then R + i else R + i - S)"
    using assms \<open>i < L\<close> by (subst mod_wrap) auto
  then show "unread b ! i = buf b ! (if R + i < S then R + i else R + i - S)"
    using assms \<open>i < L\<close> by (simp add: unread_def)
qed

lemma Write_abs:
  assumes "rb_inv b"
  shows "\<exists>b'. Write b p = Some (b', min (int (length p)) (Free b),
                   if Free b < int (length p) then Some ErrFull else None)
     \<and> rb_inv b' \<and> size_rb b' = size_rb b \<and> r b' = r b
     \<and> Length b' = Length b + min (int (length p)) (Free b)
     \<and> unread b' = unread b @ take (nat (Free b)) p"
proof -
  from assms obtain R W S where nat: "r b = int R" "w b = int W" "size_rb b = int S" "length (buf b) = S"
    "R < S" "W < S" "isFull b \<longrightarrow> R = W" by (rule rb_inv_nat)
  note LF = Length_nat[OF nat(1,2,3,7,5,6)] Free_nat[OF nat(1,2,3,7,5,6)]
  show ?thesis
  proof (cases "p = [] \<or> isFull b")
    case True
    then show ?thesis using assms LF by (auto simp: Write_def)
  next
    case False
    then have nf: "\<not> isFull b" "p \<noteq> []" by auto
    define F where "F = (if R \<le> W then S - W + R else R - W)"
    define n where "n = min (length p) F"
    define L where "L = (if R \<le> W then W - R else S - R + W)"
    have F: "Free b = int F" "Length b = int L" "0 < F" "L + F = S" using LF nf nat by (auto simp: F_def L_def)
    from Write_spec[OF nat(1-6) nf F_def n_def] obtain b' where
      b': "Write b p = Some (b', int n, if F < length p then Some ErrFull else None)"
        "size_rb b' = size_rb b" "r b' = r b"
        "w b' = int (if W + n < S then W + n else W + n - S)"
        "isFull b' = ((if W + n < S then W + n else W + n - S) = R)"
        "length (buf b') = S" "\<And>j. j < S \<Longrightarrow> buf b' ! j = put_spec S W (take n p) (buf b) j"
      by blast
    have n: "0 < n" "n \<le> F" "n \<le> length p" using nf F by (auto simp: n_def)
    define W' where "W' = (if W + n < S then W + n else W + n - S)"
    have W': "W' < S" using n(2) nat(5,6) by (auto simp: W'_def F_def split: if_splits)
    have nat': "r b' = int R" "w b' = int W'" "size_rb b' = int S" "isFull b' \<longrightarrow> R = W'"
      using b' nat by (auto simp: W'_def)
    have inv': "rb_inv b'" using nat' nat(5) W' b'(6) by (auto simp: rb_inv_def)
    have L': "Length b' = int (L + n)"
      unfolding Length_nat[OF nat'(1,2,3,4) nat(5) W']
      using b'(5) n nat F by (auto simp: W'_def F_def L_def split: if_splits)
    have len: "length (unread b') = L + n" "length (unread b) = L"
      using unread_nat(1)[OF nat'(1,3) nat(5) L'] unread_nat(1)[OF nat(1,3,5) F(2)] n F by auto
    have "unread b' = unread b @ take n p"
    proof (rule nth_equalityI)
      show "length (unread b') = length (unread b @ take n p)" using len n by simp
    next
      fix i assume "i < length (unread b')"
      then have i: "i < L + n" using len by simp
      have "unread b' ! i = buf b' ! (if R + i < S then R + i else R + i - S)"
        using unread_nat(2)[OF nat'(1,3) nat(5) L' _ i] n F by simp
      also have "\<dots> = put_spec S W (take n p) (buf b) (if R + i < S then R + i else R + i - S)"
        using b'(7) nat(5) i n F by simp
      also have "\<dots> = (unread b @ take n p) ! i"
      proof (cases "i < L")
        case True
        then show ?thesis
          using unread_nat(2)[OF nat(1,3,5) F(2) _ True] len n F nat(5,6)
          by (auto simp: nth_append put_spec_def L_def F_def split: if_splits)
      next
        case False
        then show ?thesis
          using len n F nat(5,6) i
          by (auto simp: nth_append put_spec_def L_def F_def add.commute split: if_splits)
      qed
      finally show "unread b' ! i = (unread b @ take n p) ! i" .
    qed
    moreover have "take (nat (Free b)) p = take n p" using F by (simp add: n_def min_def)
    moreover have "min (int (length p)) (Free b) = int n" using F by (simp add: n_def)
    moreover have "(Free b < int (length p)) = (F < length p)" using F by simp
    ultimately show ?thesis using b'(1,2,3) inv' L' F by simp
  qed
qed


lemma Read_abs:
  assumes "rb_inv b"
  shows "\<exists>b'. Read b p = Some (b', take (length p) (unread b) @ drop (length (unread b)) p,
                   min (int (length p)) (Length b),
                   if p \<noteq> [] \<and> Length b = 0 then Some ErrEmpty else None)
     \<and> rb_inv b' \<and> size_rb b' = size_rb b \<and> buf b' = buf b \<and> w b' = w b
     \<and> Length b' = Length b - min (int (length p)) (Length b)
     \<and> unread b' = drop (length p) (unread b)"
proof -
  from assms obtain R W S where nat: "r b = int R" "w b = int W" "size_rb b = int S" "length (buf b) = S"
    "R < S" "W < S" "isFull b \<longrightarrow> R = W" by (rule rb_inv_nat)
  define L where "L = (if isFull b then S else if R \<le> W then W - R else S - R + W)"
  have LL: "Length b = int L" "L \<le> S"
    using Length_nat[OF nat(1,2,3,7,5,6)] nat(5,6) by (auto simp: L_def)
  note ur = unread_nat[OF nat(1,3,5) LL]
  show ?thesis
  proof (cases "p = [] \<or> L = 0")
    case True
    then have "p = [] \<or> (w b = r b \<and> \<not> isFull b)"
      using nat by (auto simp: L_def split: if_splits)
    then show ?thesis using assms LL True ur(1) by (auto simp: Read_def)
  next
    case False
    then have ne: "p \<noteq> []" "0 < L" by auto
    define n where "n = min (length p) L"
    have n: "0 < n" "n \<le> L" "n \<le> length p" using ne by (auto simp: n_def)
    from Read_spec[OF nat ne(1) L_def ne(2) n_def] obtain b' p' where
      b': "Read b p = Some (b', p', int n, None)" "buf b' = buf b" "size_rb b' = size_rb b"
        "w b' = w b" "r b' = int (if R + n < S then R + n else R + n - S)" "\<not> isFull b'"
        "length p' = length p"
        "\<And>j. j < length p \<Longrightarrow> p' ! j = (if j < n then buf b ! (if R + j < S then R + j else R + j - S) else p ! j)"
      by blast
    define R' where "R' = (if R + n < S then R + n else R + n - S)"
    have R': "R' < S" using n(2) LL(2) nat(5) by (auto simp: R'_def)
    have nat': "r b' = int R'" "w b' = int W" "size_rb b' = int S" "isFull b' \<longrightarrow> R' = W"
      using b' nat by (auto simp: R'_def)
    have inv': "rb_inv b'" using nat' R' nat(6) b'(2,6) nat(4) by (auto simp: rb_inv_def)
    have L': "Length b' = int (L - n)"
      unfolding Length_nat[OF nat'(1,2,3,4) R' nat(6)]
      using b'(6) n nat(5,6,7) by (auto simp: R'_def L_def split: if_splits)
    have "L - n \<le> S" using LL(2) by simp
    note ur' = unread_nat[OF nat'(1,3) R' L' this]
    have p': "p' = take (length p) (unread b) @ drop (length (unread b)) p"
    proof (rule nth_equalityI)
      show "length p' = length (take (length p) (unread b) @ drop (length (unread b)) p)"
        using b'(7) ur(1) by auto
    next
      fix j assume "j < length p'"
      then have j: "j < length p" using b'(7) by simp
      show "p' ! j = (take (length p) (unread b) @ drop (length (unread b)) p) ! j"
        using b'(8)[OF j] j ur(1) ur(2)[of j] n
        by (auto simp: nth_append n_def min_def)
    qed
    have u': "unread b' = drop (length p) (unread b)"
    proof (rule nth_equalityI)
      show "length (unread b') = length (drop (length p) (unread b))"
        using ur'(1) ur(1) n by (auto simp: n_def)
    next
      fix i assume "i < length (unread b')"
      then have i: "i < L - n" using ur'(1) by simp
      then have lp: "n = length p" by (auto simp: n_def min_def split: if_splits)
      have "unread b' ! i = buf b ! (if R' + i < S then R' + i else R' + i - S)"
        using ur'(2)[OF i] b'(2) by simp
      also have "\<dots> = unread b ! (n + i)"
        using ur(2)[of "n + i"] i n LL nat(5) by (auto simp: R'_def add.assoc)
      finally show "unread b' ! i = drop (length p) (unread b) ! i"
        using lp ur(1) i by simp
    qed
    have "min (int (length p)) (Length b) = int n" using LL by (simp add: n_def)
    then show ?thesis using b'(1,2,3,4) inv' L' p' u' LL ne by simp
  qed
qed


lemma Bytes_unread:
  assumes "rb_inv b"
  shows "Bytes b = Some (unread b)"
proof -
  from assms obtain R W S where nat: "r b = int R" "w b = int W" "size_rb b = int S" "length (buf b) = S"
    "R < S" "W < S" "isFull b \<longrightarrow> R = W" by (rule rb_inv_nat)
  define L where "L = (if isFull b then S else if R \<le> W then W - R else S - R + W)"
  have LL: "Length b = int L" "L \<le> S"
    using Length_nat[OF nat(1,2,3,7,5,6)] nat(5,6) by (auto simp: L_def)
  note ur = unread_nat[OF nat(1,3,5) LL]
  consider (empty) "R = W" "\<not> isFull b" | (lin) "R < W" | (wrap) "W < R \<or> isFull b"
    by fastforce
  then show ?thesis
  proof cases
    case empty
    then have "unread b = []" using ur(1) by (simp add: L_def)
    then show ?thesis using empty nat by (simp add: Bytes_def)
  next
    case lin
    then have L: "L = W - R" "\<not> isFull b" using nat(7) by (auto simp: L_def)
    have mk: "makeslice (w b - r b) = Some (replicate (W - R) 0)"
      using lin nat by (simp add: makeslice_def nat_diff_distrib)
    have sl: "slice (buf b) (r b) (w b) = Some (take (W - R) (drop R (buf b)))"
      using lin nat by (simp add: slice_Some nat_diff_distrib)
    have "0 + length (take (W - R) (drop R (buf b))) \<le> length (replicate (W - R) (0::byte))"
      by simp
    from copy_at_nth[OF this] obtain d where d: "copy_at (replicate (W - R) 0) 0 (take (W - R) (drop R (buf b))) = Some d"
      "length d = W - R"
      "\<And>j. j < W - R \<Longrightarrow> d ! j = take (W - R) (drop R (buf b)) ! j"
      using lin nat(4,6) by auto
    have "d = unread b"
      using d(2,3) ur lin nat(4,5,6) L by (auto intro!: nth_equalityI)
    then show ?thesis using lin nat(1,2) mk sl d(1) by (simp add: Bytes_def)
  next
    case wrap
    then have L: "L = S - R + W" "W \<le> R" using nat(5,6,7) by (auto simp: L_def)
    have nlt: "\<not> r b < w b" using L nat(1,2) by simp
    have mk: "makeslice (size_rb b - r b + w b) = Some (replicate L 0)"
      "makeslice (size_rb b) = Some (replicate S 0)"
      using L nat by (simp_all add: makeslice_def nat_diff_distrib nat_add_distrib)
    have s1: "slice (buf b) (r b) (size_rb b) = Some (drop R (buf b))"
      "slice (buf b) (r b) (int (length (buf b))) = Some (drop R (buf b))"
      using nat by (simp_all add: slice_Some)
    have s2: "slice (buf b) 0 (w b) = Some (take W (buf b))"
      "slice (buf b) 0 (size_rb b - r b + w b - (size_rb b - r b)) = Some (take W (buf b))"
      using nat by (simp_all add: slice_Some)
    have c1: "size_rb b - r b = int (S - R)" using nat by simp
    have "0 + length (drop R (buf b)) \<le> length (replicate L (0::byte))"
      using nat(4) L by simp
    from copy_at_nth[OF this] obtain d1 where d1: "copy_at (replicate L 0) 0 (drop R (buf b)) = Some d1"
      "length d1 = length (replicate L (0::byte))"
      "\<And>j. j < length (replicate L (0::byte)) \<Longrightarrow> d1 ! j =
         (if 0 \<le> j \<and> j < 0 + length (drop R (buf b)) then drop R (buf b) ! (j - 0) else replicate L 0 ! j)"
      by auto
    have "(S - R) + length (take W (buf b)) \<le> length d1"
      using nat(4,5,6) L d1(2) by simp
    from copy_at_nth[OF this] obtain d2 where d2: "copy_at d1 (int (S - R)) (take W (buf b)) = Some d2"
      "length d2 = length d1"
      "\<And>j. j < length d1 \<Longrightarrow> d2 ! j =
         (if S - R \<le> j \<and> j < (S - R) + length (take W (buf b)) then take W (buf b) ! (j - (S - R)) else d1 ! j)"
      by auto
    have "d2 = unread b"
    proof (rule nth_equalityI)
      show "length d2 = length (unread b)" using d2(2) d1(2) ur(1) by simp
    next
      fix j assume "j < length d2"
      then have j: "j < L" using d2(2) d1(2) by simp
      show "d2 ! j = unread b ! j"
        using d2(3)[of j] d1(3)[of j] d1(2) ur(2)[OF j] j L nat(4,5,6)
        by (auto simp: add.commute)
    qed
    have LS: "isFull b \<Longrightarrow> L = S" by (simp add: L_def)
    have rw: "isFull b \<Longrightarrow> r b = w b" using nat(1,2,7) by simp
    have c: "\<not> r b + (size_rb b - r b + w b) < size_rb b" using nat(1,2,3) by simp
    show ?thesis
    proof (cases "isFull b")
      case True
      have c1w: "size_rb b - w b = int (S - R)" using True nat by simp
      show ?thesis unfolding Bytes_def
        using True rw mk(2) s1(2) s2(1) d1(1) d2(1) LS \<open>d2 = unread b\<close>
        by (simp add: c1w)
    next
      case False
      then have ne: "w b \<noteq> r b" using wrap nat(1,2) by auto
      show ?thesis unfolding Bytes_def Let_def
        using False ne nlt mk(1) s1(1) s2(2) d1(1) d2(1) c \<open>d2 = unread b\<close>
        by (simp add: c1)
    qed
  qed
qed

lemma ReadByte_abs:
  assumes "rb_inv b"
  shows "\<exists>b' x. ReadByte b = Some (b', x, if Length b = 0 then Some ErrEmpty else None)
     \<and> rb_inv b' \<and> size_rb b' = size_rb b \<and> buf b' = buf b \<and> w b' = w b
     \<and> (Length b = 0 \<longrightarrow> b' = b \<and> x = 0)
     \<and> (0 < Length b \<longrightarrow> x = hd (unread b) \<and> unread b' = tl (unread b))"
proof -
  from assms obtain R W S where nat: "r b = int R" "w b = int W" "size_rb b = int S" "length (buf b) = S"
    "R < S" "W < S" "isFull b \<longrightarrow> R = W" by (rule rb_inv_nat)
  define L where "L = (if isFull b then S else if R \<le> W then W - R else S - R + W)"
  have LL: "Length b = int L" "L \<le> S"
    using Length_nat[OF nat(1,2,3,7,5,6)] nat(5,6) by (auto simp: L_def)
  note ur = unread_nat[OF nat(1,3,5) LL]
  show ?thesis
  proof (cases "L = 0")
    case True
    then have "w b = r b \<and> \<not> isFull b" using nat by (auto simp: L_def split: if_splits)
    then show ?thesis using assms LL True by (simp add: ReadByte_def)
  next
    case False
    then have ne: "\<not> (w b = r b \<and> \<not> isFull b)" using nat(1,2) by (auto simp: L_def split: if_splits)
    define R' where "R' = (if R + 1 < S then R + 1 else 0)"
    define b' where "b' = b\<lparr>r := int R', isFull := False\<rparr>"
    have ix: "index (buf b) (r b) = Some (buf b ! R)" using nat by (simp add: index_def)
    have rb: "ReadByte b = Some (b', buf b ! R, None)"
      unfolding ReadByte_def using ne ix nat(1,3,5) by (auto simp: Let_def b'_def R'_def)
    have R': "R' < S" using nat(5) by (auto simp: R'_def)
    have nat': "r b' = int R'" "w b' = int W" "size_rb b' = int S" "isFull b' \<longrightarrow> R' = W"
      using nat by (auto simp: b'_def)
    have inv': "rb_inv b'" using nat' R' nat(4,6) by (auto simp: rb_inv_def b'_def)
    have L': "Length b' = int (L - 1)"
      unfolding Length_nat[OF nat'(1,2,3,4) R' nat(6)]
      using False nat(5,6,7) by (auto simp: R'_def L_def b'_def split: if_splits)
    have "L - 1 \<le> S" using LL(2) by simp
    note ur' = unread_nat[OF nat'(1,3) R' L' this]
    have hd: "hd (unread b) = buf b ! R"
      using ur(1) ur(2)[of 0] False nat(5) by (cases "unread b") auto
    have tl: "unread b' = tl (unread b)"
    proof (rule nth_equalityI)
      show "length (unread b') = length (tl (unread b))" using ur'(1) ur(1) by simp
    next
      fix i assume "i < length (unread b')"
      then have i: "i < L - 1" using ur'(1) by simp
      have "unread b' ! i = buf b ! (if R' + i < S then R' + i else R' + i - S)"
        using ur'(2)[OF i] by (simp add: b'_def)
      also have "(if R' + i < S then R' + i else R' + i - S)
          = (if R + Suc i < S then R + Suc i else R + Suc i - S)"
        using i LL(2) nat(5) unfolding R'_def by (cases "Suc R = S") auto
      also have "buf b ! \<dots> = unread b ! (Suc i)"
        using ur(2)[of "Suc i"] i by simp
      finally show "unread b' ! i = tl (unread b) ! i"
        using ur(1) i by (simp add: nth_tl)
    qed
    show ?thesis using rb inv' hd tl LL False by (simp add: b'_def)
  qed
qed

lemma WriteByte_abs:
  assumes "rb_inv b"
  shows "\<exists>b'. WriteByte b c = Some (b', if Free b = 0 then Some ErrFull else None)
     \<and> rb_inv b' \<and> size_rb b' = size_rb b \<and> r b' = r b
     \<and> (Free b = 0 \<longrightarrow> b' = b)
     \<and> (0 < Free b \<longrightarrow> unread b' = unread b @ [c])"
proof -
  from assms obtain R W S where nat: "r b = int R" "w b = int W" "size_rb b = int S" "length (buf b) = S"
    "R < S" "W < S" "isFull b \<longrightarrow> R = W" by (rule rb_inv_nat)
  define L where "L = (if isFull b then S else if R \<le> W then W - R else S - R + W)"
  have LL: "Length b = int L" "L \<le> S"
    using Length_nat[OF nat(1,2,3,7,5,6)] nat(5,6) by (auto simp: L_def)
  have FF: "Free b = int (S - L)"
    using Free_nat[OF nat(1,2,3,7,5,6)] nat(5,6) by (auto simp: L_def)
  note ur = unread_nat[OF nat(1,3,5) LL]
  show ?thesis
  proof (cases "isFull b")
    case True
    then show ?thesis using assms FF nat by (simp add: WriteByte_def L_def)
  next
    case False
    then have LS: "L < S" using nat(5,6) by (auto simp: L_def)
    define W' where "W' = (if W + 1 < S then W + 1 else 0)"
    define b' where "b' = b\<lparr>buf := (buf b)[W := c], w := int W', isFull := (W' = R)\<rparr>"
    have st: "store (buf b) (w b) c = Some ((buf b)[W := c])" using nat by (simp add: store_def)
    have wb: "WriteByte b c = Some (b', None)"
      unfolding WriteByte_def using False st nat(1,2,3,6) by (auto simp: Let_def b'_def W'_def)
    have W': "W' < S" using nat(6) by (auto simp: W'_def)
    have nat': "r b' = int R" "w b' = int W'" "size_rb b' = int S" "isFull b' \<longrightarrow> R = W'"
      using nat by (auto simp: b'_def)
    have inv': "rb_inv b'" using nat' W' nat(4,5) by (auto simp: rb_inv_def b'_def)
    have L': "Length b' = int (L + 1)"
      unfolding Length_nat[OF nat'(1,2,3,4) nat(5) W']
      using False nat(5,6) by (auto simp: W'_def L_def b'_def split: if_splits)
    have "L + 1 \<le> S" using LS by simp
    note ur' = unread_nat[OF nat'(1,3) nat(5) L' this]
    have "unread b' = unread b @ [c]"
    proof (rule nth_equalityI)
      show "length (unread b') = length (unread b @ [c])" using ur'(1) ur(1) by simp
    next
      fix i assume "i < length (unread b')"
      then have i: "i < L + 1" using ur'(1) by simp
      have "unread b' ! i = (buf b)[W := c] ! (if R + i < S then R + i else R + i - S)"
        using ur'(2)[OF i] by (simp add: b'_def)
      also have "\<dots> = (unread b @ [c]) ! i"
        using ur(1) ur(2)[of i] i LS False nat(4,5,6)
        by (auto simp: nth_append nth_list_update L_def split: if_splits)
      finally show "unread b' ! i = (unread b @ [c]) ! i" .
    qed
    then show ?thesis using wb inv' FF LS by (simp add: b'_def)
  qed
qed

section \<open>The invariant along sequences of calls\<close>

lemma Length_Free: "Length b + Free b = size_rb b"
  by (simp add: Length_def Free_def)

lemma New_inv:
  assumes "0 < C"
  shows "\<exists>b. New C = Some b \<and> rb_inv b \<and> size_rb b = C \<and> r b = 0 \<and> w b = 0 \<and> \<not> isFull b"
  using assms by (simp add: New_def makeslice_def rb_inv_def)

lemma step_inv:
  assumes "rb_inv b"
  shows "\<exists>b'. step b x = Some b' \<and> rb_inv b' \<and> size_rb b' = size_rb b"
proof (cases x)
  case (OpRead p)
  from Read_abs[OF assms, of p] show ?thesis unfolding OpRead by auto
next
  case OpReadByte
  from ReadByte_abs[OF assms] show ?thesis unfolding OpReadByte by auto
next
  case (OpWrite p)
  from Write_abs[OF assms, of p] show ?thesis unfolding OpWrite by auto
next
  case (OpWriteByte c)
  from WriteByte_abs[OF assms, of c] show ?thesis unfolding OpWriteByte by auto
next
  case (OpWriteString mem s)
  from Write_abs[OF assms, of "string_bytes mem s"] show ?thesis unfolding OpWriteString
    by (auto simp: WriteString_def slice_bytes_def string_bytes_def split: prod.splits)
next
  case OpReset
  then show ?thesis using assms by (simp add: Reset_def rb_inv_def)
qed

lemma run_inv:
  "rb_inv b \<Longrightarrow> \<exists>b'. run b xs = Some b' \<and> rb_inv b' \<and> size_rb b' = size_rb b"
proof (induction xs arbitrary: b)
  case Nil
  then show ?case by simp
next
  case (Cons x xs)
  from step_inv[OF Cons.prems, of x] obtain b1 where
    b1: "step b x = Some b1" "rb_inv b1" "size_rb b1 = size_rb b" by blast
  from Cons.IH[OF b1(2)] b1 show ?case by auto
qed

lemma step_zero:
  assumes "rb_zero b" "step b x = Some b'"
  shows "rb_zero b'"
proof (cases x)
  case (OpRead p)
  then show ?thesis using assms
    by (auto simp: rb_zero_def Read_def go_mod_def split: if_splits)
next
  case OpReadByte
  then show ?thesis using assms
    by (auto simp: rb_zero_def ReadByte_def index_def split: if_splits)
next
  case (OpWrite p)
  then show ?thesis using assms
    by (auto simp: rb_zero_def Write_def slice_def copy_at_def Let_def split: if_splits)
next
  case (OpWriteByte c)
  then show ?thesis using assms
    by (auto simp: rb_zero_def WriteByte_def store_def split: if_splits)
next
  case (OpWriteString mem s)
  then show ?thesis using assms
    by (auto simp: rb_zero_def WriteString_def Write_def slice_def copy_at_def Let_def split: if_splits)
next
  case OpReset
  then show ?thesis using assms by (auto simp: rb_zero_def Reset_def)
qed

lemma run_zero: "rb_zero b \<Longrightarrow> run b xs = Some b' \<Longrightarrow> rb_zero b'"
proof (induction xs arbitrary: b)
  case Nil
  then show ?case by simp
next
  case (Cons x xs)
  then show ?case by (auto split: option.splits dest: step_zero)
qed

lemma full_iff: "rb_inv b \<Longrightarrow> isFull b = (Length b = size_rb b)"
  by (auto simp: rb_inv_def Length_def)

lemma empty_iff: "rb_inv b \<Longrightarrow> (w b = r b \<and> \<not> isFull b) = (Length b = 0)"
  by (auto simp: rb_inv_def Length_def)

lemma unread_empty: "Length b = 0 \<Longrightarrow> unread b = []"
  by (simp add: unread_def)

lemma zero_safe:
  assumes "rb_zero z"
  shows "Write z p \<noteq> None" "WriteString mem z s \<noteq> None" "Bytes z \<noteq> None"
proof -
  show w: "Write z p \<noteq> None" for p
    using assms by (simp add: rb_zero_def Write_def slice_def copy_at_def Let_def)
  show "WriteString mem z s \<noteq> None" using w by (simp add: WriteString_def)
  show "Bytes z \<noteq> None"
    using assms by (simp add: rb_zero_def Bytes_def makeslice_def slice_def copy_at_def)
qed

lemma reachable_state:
  assumes "New C = Some b0" "run b0 ops = Some b"
  shows "rb_state b"
proof (cases "0 < C")
  case True
  from New_inv[OF True] assms(1) have "rb_inv b0" by auto
  with run_inv[of b0 ops] assms(2) show ?thesis by (auto simp: rb_state_def)
next
  case False
  then have "rb_zero b0" using assms(1)
    by (auto simp: New_def makeslice_def rb_zero_def split: if_splits)
  from run_zero[OF this assms(2)] show ?thesis by (simp add: rb_state_def)
qed

lemma zero_Length_Free: "rb_zero z \<Longrightarrow> Length z = 0 \<and> Free z = 0 \<and> Capacity z = 0"
  by (auto simp: rb_zero_def Length_def Free_def Capacity_def)

lemma Bytes_zero: "rb_zero z \<Longrightarrow> Bytes z = Some []"
  by (simp add: rb_zero_def Bytes_def makeslice_def slice_def copy_at_def)

section \<open>The claims\<close>

text \<open>
  C1. For a buffer created with capacity \<open>C > 0\<close>, in any empty state it reaches (the new
  buffer is one, with no calls made), and for \<open>0 < N \<le> C\<close>: writing \<open>N\<close> bytes returns
  \<open>(N, nil)\<close>, reading into a destination of \<open>N\<close> bytes then returns \<open>(N, nil)\<close> and leaves
  in the destination exactly the bytes written, in their order, and \<open>Length()\<close> is
  \<open>0\<close> afterwards. Neither call panics.
\<close>

theorem C1_round_trip:
  assumes "0 < C" "New C = Some b0" "run b0 ops = Some b" "IsEmpty b"
    and "p \<noteq> []" "int (length p) \<le> C" "length q = length p"
  shows "\<exists>b1 b2. Write b p = Some (b1, int (length p), None)
           \<and> Read b1 q = Some (b2, p, int (length p), None)
           \<and> Length b2 = 0"
proof -
  from New_inv[OF assms(1)] assms(2) have "rb_inv b0" "size_rb b0 = C" by auto
  with run_inv[of b0 ops] assms(3) have inv: "rb_inv b" and sz: "size_rb b = C" by auto
  have L0: "Length b = 0" using assms(4) by (simp add: IsEmpty_def Length_def)
  then have F: "Free b = C" using Length_Free[of b] sz by simp
  from Write_abs[OF inv, of p] obtain b1 where
    b1: "Write b p = Some (b1, int (length p), None)" "rb_inv b1"
      "Length b1 = int (length p)" "unread b1 = p"
    using F L0 assms(6) by (auto simp: unread_empty)
  from Read_abs[OF b1(2), of q] obtain b2 where
    "Read b1 q = Some (b2, p, int (length p), None)" "Length b2 = 0"
    using b1(3,4) assms(5,7) by auto
  with b1(1) show ?thesis by blast
qed

theorem C1_round_trip_witness:
  "(0::int) < 3 \<and> New 3 = Some \<lparr>buf = [0, 0, 0], size_rb = 3, r = 0, w = 0, isFull = False\<rparr>
   \<and> run \<lparr>buf = [0, 0, 0], size_rb = 3, r = 0, w = 0, isFull = False\<rparr> [OpWrite [1, 2], OpRead [0, 0]]
       = Some \<lparr>buf = [1, 2, 0], size_rb = 3, r = 2, w = 2, isFull = False\<rparr>
   \<and> IsEmpty \<lparr>buf = [1, 2, 0], size_rb = 3, r = 2, w = 2, isFull = False\<rparr>
   \<and> (\<exists>b1 b2. Write \<lparr>buf = [1, 2, 0], size_rb = 3, r = 2, w = 2, isFull = False\<rparr> [7, 8, 9]
                  = Some (b1, 3, None)
         \<and> Read b1 [0, 0, 0] = Some (b2, [7, 8, 9], 3, None) \<and> Length b2 = 0)"
proof -
  have n: "New 3 = Some \<lparr>buf = [0, 0, 0], size_rb = 3, r = 0, w = 0, isFull = False\<rparr>"
    by (simp add: New_def makeslice_def numeral_3_eq_3)
  have ru: "run \<lparr>buf = [0, 0, 0], size_rb = 3, r = 0, w = 0, isFull = False\<rparr> [OpWrite [1, 2], OpRead [0, 0]]
       = Some \<lparr>buf = [1, 2, 0], size_rb = 3, r = 2, w = 2, isFull = False\<rparr>"
    by (simp add: Write_def Read_def slice_def copy_at_def go_mod_def Let_def)
  have e: "IsEmpty \<lparr>buf = [1, 2, 0], size_rb = 3, r = 2, w = 2, isFull = False\<rparr>"
    by (simp add: IsEmpty_def)
  from C1_round_trip[OF _ n ru e, of "[7, 8, 9]" "[0, 0, 0]"] n ru e
  show ?thesis by simp
qed

text \<open>
  C2. For a buffer created with capacity \<open>C > 0\<close>, every sequence of \<open>Read\<close>, \<open>ReadByte\<close>,
  \<open>Write\<close>, \<open>WriteByte\<close>, \<open>WriteString\<close> and \<open>Reset\<close> calls runs to its end, and
  \<open>Length() + Free() = C\<close> in the state it reaches (so after every call of it).
\<close>

theorem C2_length_plus_free:
  assumes "0 < C"
  shows "\<exists>b0 b. New C = Some b0 \<and> run b0 ops = Some b \<and> Length b + Free b = C"
proof -
  from New_inv[OF assms] obtain b0 where b0: "New C = Some b0" "rb_inv b0" "size_rb b0 = C"
    by blast
  from run_inv[OF b0(2), of ops] obtain b where "run b0 ops = Some b" "size_rb b = size_rb b0"
    by blast
  then show ?thesis using b0 Length_Free[of b] by auto
qed

theorem C2_length_plus_free_witness:
  "(0::int) < 3 \<and>
   (\<exists>b0 b. New 3 = Some b0
      \<and> run b0 [OpWrite [1, 2], OpReadByte, OpWriteByte 3, OpWrite [4, 5, 6], OpRead [0, 0]] = Some b
      \<and> b = \<lparr>buf = [4, 2, 3], size_rb = 3, r = 0, w = 1, isFull = False\<rparr>
      \<and> Length b = 1 \<and> Free b = 2 \<and> Length b + Free b = 3)"
proof -
  have n: "New 3 = Some \<lparr>buf = [0, 0, 0], size_rb = 3, r = 0, w = 0, isFull = False\<rparr>"
    by (simp add: New_def makeslice_def numeral_3_eq_3)
  have ru: "run \<lparr>buf = [0, 0, 0], size_rb = 3, r = 0, w = 0, isFull = False\<rparr>
              [OpWrite [1, 2], OpReadByte, OpWriteByte 3, OpWrite [4, 5, 6], OpRead [0, 0]]
       = Some \<lparr>buf = [4, 2, 3], size_rb = 3, r = 0, w = 1, isFull = False\<rparr>"
    by (simp add: Write_def WriteByte_def ReadByte_def Read_def index_def store_def slice_def
        copy_at_def go_mod_def Let_def)
  from C2_length_plus_free[of 3 "[OpWrite [1, 2], OpReadByte, OpWriteByte 3, OpWrite [4, 5, 6], OpRead [0, 0]]"] n ru
  show ?thesis by (simp add: Length_def Free_def)
qed

text \<open>
  C3. For a buffer created with capacity \<open>C > 0\<close>, every sequence of calls runs to its end
  in a state with \<open>0 \<le> r < C\<close>, \<open>0 \<le> w < C\<close> and the full flag set only where \<open>r = w\<close>;
  the capacity and the length of the storage stay \<open>C\<close>. So exactly one of the three
  holds: the buffer is full, it is empty, or the cursors differ.
\<close>

theorem C3_state_invariant:
  assumes "0 < C"
  shows "\<exists>b0 b. New C = Some b0 \<and> run b0 ops = Some b
     \<and> Capacity b = C \<and> int (length (buf b)) = C
     \<and> 0 \<le> r b \<and> r b < C \<and> 0 \<le> w b \<and> w b < C
     \<and> (isFull b \<longrightarrow> r b = w b)
     \<and> ((IsFull b \<and> \<not> IsEmpty b \<and> r b = w b)
        \<or> (\<not> IsFull b \<and> IsEmpty b \<and> r b = w b)
        \<or> (\<not> IsFull b \<and> \<not> IsEmpty b \<and> r b \<noteq> w b))"
proof -
  from New_inv[OF assms] obtain b0 where b0: "New C = Some b0" "rb_inv b0" "size_rb b0 = C"
    by blast
  from run_inv[OF b0(2), of ops] obtain b where
    b: "run b0 ops = Some b" "rb_inv b" "size_rb b = size_rb b0"
    by blast
  have "Capacity b = C" "int (length (buf b)) = C" "0 \<le> r b" "r b < C" "0 \<le> w b" "w b < C"
    "isFull b \<longrightarrow> r b = w b"
    using b(2,3) b0(3) by (auto simp: rb_inv_def Capacity_def)
  moreover from this have "(IsFull b \<and> \<not> IsEmpty b \<and> r b = w b)
        \<or> (\<not> IsFull b \<and> IsEmpty b \<and> r b = w b)
        \<or> (\<not> IsFull b \<and> \<not> IsEmpty b \<and> r b \<noteq> w b)"
    by (auto simp: IsFull_def IsEmpty_def)
  ultimately show ?thesis using b0(1) b(1) by blast
qed

theorem C3_state_invariant_witness:
  "(0::int) < 2 \<and>
   (\<exists>b0 b. New 2 = Some b0 \<and> run b0 [OpWriteByte 1, OpReadByte, OpWrite [2, 3, 4]] = Some b
     \<and> b = \<lparr>buf = [3, 2], size_rb = 2, r = 1, w = 1, isFull = True\<rparr>
     \<and> Capacity b = 2 \<and> 0 \<le> r b \<and> r b < 2 \<and> 0 \<le> w b \<and> w b < 2 \<and> r b = w b
     \<and> IsFull b \<and> \<not> IsEmpty b)"
proof -
  have n: "New 2 = Some \<lparr>buf = [0, 0], size_rb = 2, r = 0, w = 0, isFull = False\<rparr>"
    by (simp add: New_def makeslice_def numeral_2_eq_2)
  have ru: "run \<lparr>buf = [0, 0], size_rb = 2, r = 0, w = 0, isFull = False\<rparr>
              [OpWriteByte 1, OpReadByte, OpWrite [2, 3, 4]]
       = Some \<lparr>buf = [3, 2], size_rb = 2, r = 1, w = 1, isFull = True\<rparr>"
    by (simp add: Write_def WriteByte_def ReadByte_def index_def store_def slice_def copy_at_def Let_def)
  from C3_state_invariant[of 2 "[OpWriteByte 1, OpReadByte, OpWrite [2, 3, 4]]"] n ru
  show ?thesis by (simp add: Capacity_def IsFull_def IsEmpty_def)
qed

text \<open>
  C4. In every state of the buffer with \<open>F = Free() > 0\<close>, \<open>Write\<close> of more than \<open>F\<close>
  bytes returns \<open>(F, ErrFull)\<close>; the unread bytes afterwards are those before followed
  by the first \<open>F\<close> bytes of the payload, and no more; the buffer is full afterwards.
\<close>

theorem C4_truncated_write:
  assumes "rb_state b" "0 < Free b" "Free b < int (length p)"
  shows "\<exists>b'. Write b p = Some (b', Free b, Some ErrFull)
           \<and> unread b' = unread b @ take (nat (Free b)) p
           \<and> Length b' = Length b + Free b
           \<and> IsFull b' \<and> Free b' = 0"
proof -
  have inv: "rb_inv b" using assms(1,2) zero_Length_Free[of b] by (auto simp: rb_state_def)
  from Write_abs[OF inv, of p] obtain b' where
    b': "Write b p = Some (b', Free b, Some ErrFull)" "rb_inv b'" "size_rb b' = size_rb b"
      "Length b' = Length b + Free b" "unread b' = unread b @ take (nat (Free b)) p"
    using assms(2,3) by auto
  have "Length b' = size_rb b'" using b'(3,4) Length_Free[of b] by simp
  then have "IsFull b'" "Free b' = 0"
    using full_iff[OF b'(2)] Length_Free[of b'] by (simp_all add: IsFull_def)
  with b' show ?thesis by blast
qed

theorem C4_truncated_write_witness:
  "rb_state \<lparr>buf = [1, 2, 3], size_rb = 3, r = 2, w = 1, isFull = False\<rparr>
   \<and> 0 < Free \<lparr>buf = [1, 2, 3], size_rb = 3, r = 2, w = 1, isFull = False\<rparr>
   \<and> Free \<lparr>buf = [1, 2, 3], size_rb = 3, r = 2, w = 1, isFull = False\<rparr> < int (length [7, 8 :: byte])
   \<and> Write \<lparr>buf = [1, 2, 3], size_rb = 3, r = 2, w = 1, isFull = False\<rparr> [7, 8]
        = Some (\<lparr>buf = [1, 7, 3], size_rb = 3, r = 2, w = 2, isFull = True\<rparr>, 1, Some ErrFull)
   \<and> unread \<lparr>buf = [1, 7, 3], size_rb = 3, r = 2, w = 2, isFull = True\<rparr> = [3, 1, 7]"
proof -
  have i: "rb_state \<lparr>buf = [1, 2, 3], size_rb = 3, r = 2, w = 1, isFull = False\<rparr>"
    by (simp add: rb_state_def rb_inv_def)
  have f: "Free \<lparr>buf = [1, 2, 3], size_rb = 3, r = 2, w = 1, isFull = False\<rparr> = 1"
    by (simp add: Free_def)
  have u: "unread \<lparr>buf = [1, 2, 3], size_rb = 3, r = 2, w = 1, isFull = False\<rparr> = [3, 1]"
    by (simp add: unread_def Length_def upt_rec)
  have wr: "Write \<lparr>buf = [1, 2, 3], size_rb = 3, r = 2, w = 1, isFull = False\<rparr> [7, 8]
        = Some (\<lparr>buf = [1, 7, 3], size_rb = 3, r = 2, w = 2, isFull = True\<rparr>, 1, Some ErrFull)"
    by (simp add: Write_def slice_def copy_at_def Let_def)
  from C4_truncated_write[OF i, of "[7, 8]"] i f u wr
  show ?thesis by simp
qed

text \<open>
  The new buffer of capacity zero has \<open>Length() = Capacity() = 0\<close> with the full flag
  clear: \<open>Write\<close> of a non-empty payload returns \<open>(0, ErrFull)\<close> and sets the flag, and
  \<open>WriteByte\<close> indexes the empty storage and panics.
\<close>

theorem C5_counterexample:
  "New 0 = Some \<lparr>buf = [], size_rb = 0, r = 0, w = 0, isFull = False\<rparr>
   \<and> Length \<lparr>buf = [], size_rb = 0, r = 0, w = 0, isFull = False\<rparr>
       = Capacity \<lparr>buf = [], size_rb = 0, r = 0, w = 0, isFull = False\<rparr>
   \<and> Write \<lparr>buf = [], size_rb = 0, r = 0, w = 0, isFull = False\<rparr> [1]
       = Some (\<lparr>buf = [], size_rb = 0, r = 0, w = 0, isFull = True\<rparr>, 0, Some ErrFull)
   \<and> WriteByte \<lparr>buf = [], size_rb = 0, r = 0, w = 0, isFull = False\<rparr> 1 = None"
  by (simp add: New_def makeslice_def Length_def Capacity_def Write_def slice_def copy_at_def
      WriteByte_def store_def Let_def)

text \<open>
  C5, amended. In every state of the buffer with \<open>Length() = Capacity()\<close>, of positive
  capacity or with the full flag set, \<open>Write\<close> of a non-empty payload returns
  \<open>(0, ErrFull)\<close> and \<open>WriteByte\<close> returns \<open>ErrFull\<close>, and the buffer after either call
  is the buffer before it: storage, both cursors and the full flag.
\<close>

theorem C5_full_buffer_rejects:
  assumes "rb_state b" "Length b = Capacity b" "0 < Capacity b \<or> IsFull b" "p \<noteq> []"
  shows "Write b p = Some (b, 0, Some ErrFull) \<and> WriteByte b c = Some (b, Some ErrFull)"
proof -
  have "isFull b \<and> w b = r b"
  proof (cases "rb_inv b")
    case True
    then show ?thesis using full_iff[OF True] assms(2) by (auto simp: Capacity_def rb_inv_def)
  next
    case False
    then have "rb_zero b" using assms(1) by (simp add: rb_state_def)
    then show ?thesis using assms(3) by (auto simp: rb_zero_def Capacity_def IsFull_def)
  qed
  then show ?thesis using assms(4) by (simp add: Write_def WriteByte_def)
qed

theorem C5_full_buffer_rejects_witness:
  "rb_state \<lparr>buf = [1, 2, 3], size_rb = 3, r = 1, w = 1, isFull = True\<rparr>
   \<and> Length \<lparr>buf = [1, 2, 3], size_rb = 3, r = 1, w = 1, isFull = True\<rparr>
       = Capacity \<lparr>buf = [1, 2, 3], size_rb = 3, r = 1, w = 1, isFull = True\<rparr>
   \<and> 0 < Capacity \<lparr>buf = [1, 2, 3], size_rb = 3, r = 1, w = 1, isFull = True\<rparr>
   \<and> [7 :: byte] \<noteq> []
   \<and> Write \<lparr>buf = [1, 2, 3], size_rb = 3, r = 1, w = 1, isFull = True\<rparr> [7]
       = Some (\<lparr>buf = [1, 2, 3], size_rb = 3, r = 1, w = 1, isFull = True\<rparr>, 0, Some ErrFull)
   \<and> WriteByte \<lparr>buf = [1, 2, 3], size_rb = 3, r = 1, w = 1, isFull = True\<rparr> 7
       = Some (\<lparr>buf = [1, 2, 3], size_rb = 3, r = 1, w = 1, isFull = True\<rparr>, Some ErrFull)"
proof -
  have i: "rb_state \<lparr>buf = [1, 2, 3], size_rb = 3, r = 1, w = 1, isFull = True\<rparr>"
    by (simp add: rb_state_def rb_inv_def)
  have l: "Length \<lparr>buf = [1, 2, 3], size_rb = 3, r = 1, w = 1, isFull = True\<rparr>
       = Capacity \<lparr>buf = [1, 2, 3], size_rb = 3, r = 1, w = 1, isFull = True\<rparr>"
    by (simp add: Length_def Capacity_def)
  have c: "0 < Capacity \<lparr>buf = [1, 2, 3], size_rb = 3, r = 1, w = 1, isFull = True\<rparr>"
    by (simp add: Capacity_def)
  have ne: "[7 :: byte] \<noteq> []" by simp
  from C5_full_buffer_rejects[OF i l _ ne, of 7] i l c show ?thesis by simp
qed

text \<open>
  The buffer of capacity zero after a \<open>Write\<close> has set its full flag: \<open>Length()\<close> is \<open>0\<close>,
  yet \<open>Read\<close> into a non-empty destination takes a remainder by zero and \<open>ReadByte\<close>
  indexes the empty storage; both panic.
\<close>

theorem C6_counterexample:
  "New 0 = Some \<lparr>buf = [], size_rb = 0, r = 0, w = 0, isFull = False\<rparr>
   \<and> run \<lparr>buf = [], size_rb = 0, r = 0, w = 0, isFull = False\<rparr> [OpWrite [1]]
       = Some \<lparr>buf = [], size_rb = 0, r = 0, w = 0, isFull = True\<rparr>
   \<and> Length \<lparr>buf = [], size_rb = 0, r = 0, w = 0, isFull = True\<rparr> = 0
   \<and> Read \<lparr>buf = [], size_rb = 0, r = 0, w = 0, isFull = True\<rparr> [0] = None
   \<and> ReadByte \<lparr>buf = [], size_rb = 0, r = 0, w = 0, isFull = True\<rparr> = None"
  by (simp add: New_def makeslice_def Length_def Write_def slice_def copy_at_def
      Read_def go_mod_def ReadByte_def index_def Let_def)

text \<open>
  C6, amended. In every state of the buffer with no unread byte, of positive capacity
  or with the full flag clear, \<open>Read\<close> into a non-empty destination returns
  \<open>(0, ErrEmpty)\<close> and \<open>ReadByte\<close> returns \<open>(0, ErrEmpty)\<close>; the buffer after either call
  is the buffer before it, and the destination is as it was.
\<close>

theorem C6_empty_buffer_rejects:
  assumes "rb_state b" "Length b = 0" "0 < Capacity b \<or> \<not> IsFull b" "q \<noteq> []"
  shows "Read b q = Some (b, q, 0, Some ErrEmpty) \<and> ReadByte b = Some (b, 0, Some ErrEmpty)"
proof -
  have "w b = r b \<and> \<not> isFull b"
  proof (cases "rb_inv b")
    case True
    then show ?thesis using empty_iff[OF True] assms(2) by simp
  next
    case False
    then have "rb_zero b" using assms(1) by (simp add: rb_state_def)
    then show ?thesis using assms(3) by (auto simp: rb_zero_def Capacity_def IsFull_def)
  qed
  then show ?thesis using assms(4) by (simp add: Read_def ReadByte_def)
qed

theorem C6_empty_buffer_rejects_witness:
  "rb_state \<lparr>buf = [1, 2, 3], size_rb = 3, r = 2, w = 2, isFull = False\<rparr>
   \<and> Length \<lparr>buf = [1, 2, 3], size_rb = 3, r = 2, w = 2, isFull = False\<rparr> = 0
   \<and> 0 < Capacity \<lparr>buf = [1, 2, 3], size_rb = 3, r = 2, w = 2, isFull = False\<rparr>
   \<and> [9, 9 :: byte] \<noteq> []
   \<and> Read \<lparr>buf = [1, 2, 3], size_rb = 3, r = 2, w = 2, isFull = False\<rparr> [9, 9]
       = Some (\<lparr>buf = [1, 2, 3], size_rb = 3, r = 2, w = 2, isFull = False\<rparr>, [9, 9], 0, Some ErrEmpty)
   \<and> ReadByte \<lparr>buf = [1, 2, 3], size_rb = 3, r = 2, w = 2, isFull = False\<rparr>
       = Some (\<lparr>buf = [1, 2, 3], size_rb = 3, r = 2, w = 2, isFull = False\<rparr>, 0, Some ErrEmpty)"
proof -
  have i: "rb_state \<lparr>buf = [1, 2, 3], size_rb = 3, r = 2, w = 2, isFull = False\<rparr>"
    by (simp add: rb_state_def rb_inv_def)
  have l: "Length \<lparr>buf = [1, 2, 3], size_rb = 3, r = 2, w = 2, isFull = False\<rparr> = 0"
    by (simp add: Length_def)
  have c: "0 < Capacity \<lparr>buf = [1, 2, 3], size_rb = 3, r = 2, w = 2, isFull = False\<rparr>"
    by (simp add: Capacity_def)
  have ne: "[9, 9 :: byte] \<noteq> []" by simp
  from C6_empty_buffer_rejects[OF i l _ ne] i l c show ?thesis by simp
qed

text \<open>
  A buffer of capacity zero: \<open>WriteByte\<close> on the new buffer indexes the empty storage and
  panics; after a \<open>Write\<close> has set the full flag, \<open>Read\<close> into a non-empty destination
  takes a remainder by zero, and \<open>ReadByte\<close> indexes the empty storage.
\<close>

theorem C7_counterexample:
  "New 0 = Some \<lparr>buf = [], size_rb = 0, r = 0, w = 0, isFull = False\<rparr>
   \<and> WriteByte \<lparr>buf = [], size_rb = 0, r = 0, w = 0, isFull = False\<rparr> 1 = None
   \<and> Write \<lparr>buf = [], size_rb = 0, r = 0, w = 0, isFull = False\<rparr> [1]
       = Some (\<lparr>buf = [], size_rb = 0, r = 0, w = 0, isFull = True\<rparr>, 0, Some ErrFull)
   \<and> Read \<lparr>buf = [], size_rb = 0, r = 0, w = 0, isFull = True\<rparr> [0] = None
   \<and> ReadByte \<lparr>buf = [], size_rb = 0, r = 0, w = 0, isFull = True\<rparr> = None"
  by (simp add: New_def makeslice_def WriteByte_def store_def Write_def slice_def copy_at_def
      Read_def go_mod_def ReadByte_def index_def Let_def)

text \<open>
  C7, amended. For every capacity \<open>C > 0\<close>, \<open>New\<close> returns, every sequence of calls runs
  to its end, and in the state reached \<open>Read\<close>, \<open>ReadByte\<close>, \<open>Write\<close>, \<open>WriteByte\<close>,
  \<open>WriteString\<close> and \<open>Bytes\<close> return without a panic for every argument. (\<open>Length\<close>,
  \<open>Free\<close>, \<open>Capacity\<close>, \<open>IsFull\<close>, \<open>IsEmpty\<close> and \<open>Reset\<close> only compare, subtract and
  assign fields; they are total functions of the state.) In every state whatsoever a
  zero-length \<open>Read\<close> or \<open>Write\<close> changes nothing and returns \<open>(0, nil)\<close>, and so does
  \<open>WriteString\<close> of the empty string. In the states of a buffer of capacity zero,
  \<open>Write\<close>, \<open>WriteString\<close> and \<open>Bytes\<close> return without a panic.
\<close>

theorem C7_no_panic:
  assumes "0 < C"
  shows "\<exists>b0 b. New C = Some b0 \<and> run b0 ops = Some b
     \<and> Read b q \<noteq> None \<and> ReadByte b \<noteq> None \<and> Write b p \<noteq> None \<and> WriteByte b c \<noteq> None
     \<and> WriteString mem b s \<noteq> None \<and> Bytes b \<noteq> None
     \<and> Read b' [] = Some (b', [], 0, None) \<and> Write b' [] = Some (b', 0, None)
     \<and> WriteString mem b' (a, 0) = Some (b', 0, None)
     \<and> (rb_zero z \<longrightarrow> Write z p \<noteq> None \<and> WriteString mem z s \<noteq> None \<and> Bytes z \<noteq> None)"
proof -
  from New_inv[OF assms] obtain b0 where b0: "New C = Some b0" "rb_inv b0" by blast
  from run_inv[OF b0(2), of ops] obtain b where b: "run b0 ops = Some b" "rb_inv b" by blast
  have "Read b q \<noteq> None" using Read_abs[OF b(2), of q] by auto
  moreover have "ReadByte b \<noteq> None" using ReadByte_abs[OF b(2)] by auto
  moreover have "Write b p \<noteq> None" using Write_abs[OF b(2), of p] by auto
  moreover have "WriteByte b c \<noteq> None" using WriteByte_abs[OF b(2), of c] by auto
  moreover have "WriteString mem b s \<noteq> None"
    using Write_abs[OF b(2), of "string_bytes mem s"]
    by (auto simp: WriteString_def slice_bytes_def string_bytes_def split: prod.splits)
  moreover have "Bytes b \<noteq> None" using Bytes_unread[OF b(2)] by simp
  moreover have "Read b' [] = Some (b', [], 0, None)" "Write b' [] = Some (b', 0, None)"
    "WriteString mem b' (a, 0) = Some (b', 0, None)"
    by (simp_all add: Read_def Write_def WriteString_def slice_bytes_def)
  moreover have "rb_zero z \<longrightarrow> Write z p \<noteq> None \<and> WriteString mem z s \<noteq> None \<and> Bytes z \<noteq> None"
    using zero_safe[of z] by blast
  ultimately show ?thesis using b0(1) b(1) by blast
qed

theorem C7_no_panic_witness:
  "(0::int) < 2
   \<and> (\<exists>b0 b. New 2 = Some b0 \<and> run b0 [OpWrite [1, 2, 3], OpReadByte] = Some b
        \<and> b = \<lparr>buf = [1, 2], size_rb = 2, r = 1, w = 0, isFull = False\<rparr>
        \<and> Read b [0, 0] \<noteq> None \<and> ReadByte b \<noteq> None \<and> Write b [4, 5] \<noteq> None
        \<and> WriteByte b 6 \<noteq> None \<and> WriteString (\<lambda>a. 7) b (0, 3) \<noteq> None \<and> Bytes b \<noteq> None)
   \<and> rb_zero \<lparr>buf = [], size_rb = 0, r = 0, w = 0, isFull = True\<rparr>
   \<and> Write \<lparr>buf = [], size_rb = 0, r = 0, w = 0, isFull = True\<rparr> [4, 5] \<noteq> None
   \<and> Bytes \<lparr>buf = [], size_rb = 0, r = 0, w = 0, isFull = True\<rparr> \<noteq> None"
proof -
  have n: "New 2 = Some \<lparr>buf = [0, 0], size_rb = 2, r = 0, w = 0, isFull = False\<rparr>"
    by (simp add: New_def makeslice_def numeral_2_eq_2)
  have ru: "run \<lparr>buf = [0, 0], size_rb = 2, r = 0, w = 0, isFull = False\<rparr> [OpWrite [1, 2, 3], OpReadByte]
       = Some \<lparr>buf = [1, 2], size_rb = 2, r = 1, w = 0, isFull = False\<rparr>"
    by (simp add: Write_def ReadByte_def index_def slice_def copy_at_def Let_def)
  have z: "rb_zero \<lparr>buf = [], size_rb = 0, r = 0, w = 0, isFull = True\<rparr>"
    by (simp add: rb_zero_def)
  from C7_no_panic[of 2 "[OpWrite [1, 2, 3], OpReadByte]" "[0, 0]" "[4, 5]" 6 "\<lambda>a. 7" "(0, 3)" _ _
      "\<lparr>buf = [], size_rb = 0, r = 0, w = 0, isFull = True\<rparr>"] n ru z
  show ?thesis by simp
qed

text \<open>The new buffer of capacity zero is not full: \<open>IsFull()\<close> returns false.\<close>

theorem C8_counterexample: "map_option IsFull (New 0) = Some False"
  by (simp add: New_def makeslice_def IsFull_def)

text \<open>
  C8, amended. The buffer that \<open>New(0)\<close> returns is empty and not full. After every
  sequence of calls on it that runs to its end, \<open>Length()\<close>, \<open>Free()\<close> and \<open>Capacity()\<close>
  are all \<open>0\<close>, and exactly one of \<open>IsFull()\<close> and \<open>IsEmpty()\<close> holds, never both.
\<close>

theorem C8_zero_capacity:
  assumes "New 0 = Some b0" "run b0 ops = Some b"
  shows "IsEmpty b0 \<and> \<not> IsFull b0
     \<and> Length b = 0 \<and> Free b = 0 \<and> Capacity b = 0 \<and> IsEmpty b = (\<not> IsFull b)"
proof -
  have z0: "rb_zero b0" "\<not> isFull b0" using assms(1) by (auto simp: New_def makeslice_def rb_zero_def)
  from run_zero[OF z0(1) assms(2)] have "rb_zero b" .
  then show ?thesis using z0
    by (auto simp: rb_zero_def IsEmpty_def IsFull_def Length_def Free_def Capacity_def)
qed

theorem C8_zero_capacity_witness:
  "New 0 = Some \<lparr>buf = [], size_rb = 0, r = 0, w = 0, isFull = False\<rparr>
   \<and> run \<lparr>buf = [], size_rb = 0, r = 0, w = 0, isFull = False\<rparr> [OpWrite [1]]
       = Some \<lparr>buf = [], size_rb = 0, r = 0, w = 0, isFull = True\<rparr>
   \<and> IsEmpty \<lparr>buf = [], size_rb = 0, r = 0, w = 0, isFull = False\<rparr>
   \<and> \<not> IsFull \<lparr>buf = [], size_rb = 0, r = 0, w = 0, isFull = False\<rparr>
   \<and> Length \<lparr>buf = [], size_rb = 0, r = 0, w = 0, isFull = True\<rparr> = 0
   \<and> Free \<lparr>buf = [], size_rb = 0, r = 0, w = 0, isFull = True\<rparr> = 0
   \<and> IsFull \<lparr>buf = [], size_rb = 0, r = 0, w = 0, isFull = True\<rparr>
   \<and> \<not> IsEmpty \<lparr>buf = [], size_rb = 0, r = 0, w = 0, isFull = True\<rparr>"
proof -
  have n: "New 0 = Some \<lparr>buf = [], size_rb = 0, r = 0, w = 0, isFull = False\<rparr>"
    by (simp add: New_def makeslice_def)
  have ru: "run \<lparr>buf = [], size_rb = 0, r = 0, w = 0, isFull = False\<rparr> [OpWrite [1]]
       = Some \<lparr>buf = [], size_rb = 0, r = 0, w = 0, isFull = True\<rparr>"
    by (simp add: Write_def slice_def copy_at_def Let_def)
  from C8_zero_capacity[OF n ru] n ru show ?thesis by (simp add: IsFull_def)
qed

text \<open>
  C9. In every state of the buffer, \<open>Bytes\<close> returns the unread bytes in logical
  order: \<open>Length()\<close> bytes, the \<open>i\<close>-th of them the byte of the storage at index
  \<open>(r + i) mod size\<close>, so oldest first and across the end of the storage. \<open>Bytes\<close>
  assigns no field of the buffer and builds its result in a slice of its own, so the
  buffer, and with it \<open>Length()\<close>, \<open>Free()\<close> and the result of the next \<open>Bytes()\<close>, is
  as before the call.
\<close>

theorem C9_Bytes_unread:
  assumes "rb_state b"
  shows "Bytes b = Some (unread b) \<and> int (length (unread b)) = Length b
     \<and> (\<forall>i<length (unread b). unread b ! i = buf b ! nat ((r b + int i) mod size_rb b))"
proof (cases "rb_inv b")
  case True
  then have "0 \<le> Length b" by (auto simp: rb_inv_def Length_def)
  then show ?thesis using Bytes_unread[OF True] by (simp add: unread_def)
next
  case False
  then have z: "rb_zero b" using assms by (simp add: rb_state_def)
  then show ?thesis using Bytes_zero[OF z] zero_Length_Free[OF z] by (simp add: unread_def)
qed

theorem C9_Bytes_unread_witness:
  "rb_state \<lparr>buf = [1, 2, 3, 4], size_rb = 4, r = 3, w = 2, isFull = False\<rparr>
   \<and> Bytes \<lparr>buf = [1, 2, 3, 4], size_rb = 4, r = 3, w = 2, isFull = False\<rparr> = Some [4, 1, 2]
   \<and> unread \<lparr>buf = [1, 2, 3, 4], size_rb = 4, r = 3, w = 2, isFull = False\<rparr> = [4, 1, 2]
   \<and> Length \<lparr>buf = [1, 2, 3, 4], size_rb = 4, r = 3, w = 2, isFull = False\<rparr> = 3"
proof -
  have i: "rb_state \<lparr>buf = [1, 2, 3, 4], size_rb = 4, r = 3, w = 2, isFull = False\<rparr>"
    by (simp add: rb_state_def rb_inv_def)
  have u: "unread \<lparr>buf = [1, 2, 3, 4], size_rb = 4, r = 3, w = 2, isFull = False\<rparr> = [4, 1, 2]"
    by (simp add: unread_def Length_def upt_rec)
  from C9_Bytes_unread[OF i] i u show ?thesis by (simp add: Length_def)
qed

text \<open>
  C10. For every buffer state and every string, \<open>WriteString\<close> returns the count and the
  error, and leaves the buffer in the state, that \<open>Write\<close> does on the bytes of the string:
  the slice header it builds addresses the string's bytes with the string's length, and
  the call is \<open>Write\<close> on that slice, so the cut to the free space and the full error are
  those of \<open>Write\<close>.
\<close>

theorem C10_WriteString_is_Write:
  "WriteString mem b s = Write b (string_bytes mem s)"
  by (simp add: WriteString_def slice_bytes_def string_bytes_def Let_def split: prod.splits)

end
